theory Spec2Isabelle
  imports Main
begin

section \<open>Bytes and the C library functions the server calls\<close>

text \<open>
  The server works on \<open>char\<close> buffers. A byte is a \<^typ>\<open>char\<close>, a buffer or a
  \<open>std::string\<close> is a \<^typ>\<open>string\<close>. The program never calls \<open>setlocale\<close>, so
  \<open>isprint\<close> and \<open>std::toupper\<close> are those of the "C" locale.
\<close>

definition CR :: char where
  "CR = CHR 0x0D"

definition LF :: char where
  "LF = CHR 0x0A"

definition NUL :: char where
  "NUL = CHR 0x00"

definition SP :: char where
  "SP = CHR 0x20"

text \<open>
  \<open>isprint\<close> in the "C" locale: the bytes 0x20 (space) to 0x7E (tilde). The program
  passes a plain \<open>char\<close>; a byte from 0x80 on is not printable either way.
\<close>

definition isprint :: "char \<Rightarrow> bool" where
  "isprint c = (let n = (of_char c :: nat) in 32 \<le> n \<and> n \<le> 126)"

text \<open>\<open>isspace\<close> in the "C" locale: space, and the bytes 0x09 to 0x0D.\<close>

definition isspace :: "char \<Rightarrow> bool" where
  "isspace c = (let n = (of_char c :: nat) in n = 32 \<or> (9 \<le> n \<and> n \<le> 13))"

text \<open>\<open>std::toupper\<close> in the "C" locale: the letters a to z move down by 32.\<close>

definition std_toupper :: "char \<Rightarrow> char" where
  "std_toupper c =
     (let n = (of_char c :: nat) in if 97 \<le> n \<and> n \<le> 122 then char_of (n - 32) else c)"

text \<open>The \<open>toupper\<close> of main.cpp: \<open>std::ranges::transform\<close> over the whole string.\<close>

definition toupper :: "string \<Rightarrow> string" where
  "toupper str = map std_toupper str"

text \<open>
  What a C function reads of a \<open>std::string\<close> through \<open>data()\<close>: the bytes before
  the first NUL.
\<close>

definition c_str :: "string \<Rightarrow> string" where
  "c_str str = takeWhile (\<lambda>c. c \<noteq> NUL) str"

text \<open>
  One call of \<open>strtok_r\<close> with the delimiter set \<open>" "\<close>, on the text that is left:
  it skips the leading delimiters; at the end of the text it returns NULL (\<open>None\<close>);
  otherwise the token runs to the next delimiter, which it overwrites with NUL, and
  the text left starts after that delimiter.
\<close>

definition strtok_r :: "string \<Rightarrow> (string \<times> string) option" where
  "strtok_r s =
     (let s' = dropWhile (\<lambda>c. c = SP) s in
      if s' = [] then None
      else Some (takeWhile (\<lambda>c. c \<noteq> SP) s', drop 1 (dropWhile (\<lambda>c. c \<noteq> SP) s')))"

section \<open>The process-wide state and the command actions\<close>

text \<open>
  \<open>running\<close> is the \<open>std::atomic<bool>\<close> of main.cpp, shared by every thread; it is
  the negation of the specification's ShutdownFlag. A command action receives the
  response stream \<open>os\<close> and reaches \<open>running\<close> as a global.
\<close>

record shared =
  running :: bool

record cmd_state = shared +
  os :: string

definition ex :: "cmd_state \<Rightarrow> cmd_state" where
  "ex st = st\<lparr>running := False\<rparr>"

text \<open>\<open>std::endl\<close> writes a line feed (and flushes).\<close>

definition dir :: "cmd_state \<Rightarrow> cmd_state" where
  "dir st = st\<lparr>os := os st @ ''Directory...'' @ [LF]\<rparr>"

text \<open>The static \<open>std::map\<close> of \<open>connection_command\<close>.\<close>

definition tokens :: "string \<rightharpoonup> (cmd_state \<Rightarrow> cmd_state)" where
  "tokens = map_of [(''EX'', ex), (''DIR'', dir)]"

text \<open>The body of the \<open>while (token)\<close> loop for one token.\<close>

definition run_token :: "string \<Rightarrow> cmd_state \<Rightarrow> cmd_state" where
  "run_token token st =
     (let token_str = toupper token in
      case tokens token_str of
        Some this_token \<Rightarrow> this_token st
      | None \<Rightarrow> st)"

lemma strtok_r_shorter:
  assumes "strtok_r s = Some (token, rest)"
  shows "length rest < length s"
proof -
  let ?s' = "dropWhile (\<lambda>c. c = SP) s"
  from assms have ne: "?s' \<noteq> []" and r: "rest = drop 1 (dropWhile (\<lambda>c. c \<noteq> SP) ?s')"
    by (auto simp: strtok_r_def Let_def split: if_splits)
  from ne have "hd ?s' \<noteq> SP"
    using hd_dropWhile [of "\<lambda>c. c = SP" s] by simp
  with ne have "dropWhile (\<lambda>c. c \<noteq> SP) ?s' = dropWhile (\<lambda>c. c \<noteq> SP) (tl ?s')"
    by (cases ?s') auto
  then have "length (dropWhile (\<lambda>c. c \<noteq> SP) ?s') \<le> length (tl ?s')"
    using length_dropWhile_le [of "\<lambda>c. c \<noteq> SP" "tl ?s'"] by simp
  also from ne have "\<dots> < length ?s'"
    by (cases ?s') auto
  also have "\<dots> \<le> length s"
    by (rule length_dropWhile_le)
  finally show ?thesis
    using r by simp
qed

text \<open>
  The \<open>while (token)\<close> loop of \<open>connection_command\<close>: the argument is the result of
  the last \<open>strtok_r\<close> call.
\<close>

function token_loop :: "(string \<times> string) option \<Rightarrow> cmd_state \<Rightarrow> cmd_state" where
  "token_loop None st = st"
| "token_loop (Some (token, rest)) st = token_loop (strtok_r rest) (run_token token st)"
  by pat_completeness auto
termination
  by (relation "measure (\<lambda>(t, st). case t of None \<Rightarrow> 0 | Some (token, rest) \<Rightarrow> Suc (length rest))")
     (auto split: option.splits dest: strtok_r_shorter)

definition connection_command :: "string \<Rightarrow> cmd_state \<Rightarrow> cmd_state" where
  "connection_command line st = token_loop (strtok_r (c_str line)) st"

text \<open>The tokens that the successive \<open>strtok_r\<close> calls return, in order.\<close>

function strtok_all :: "(string \<times> string) option \<Rightarrow> string list" where
  "strtok_all None = []"
| "strtok_all (Some (token, rest)) = token # strtok_all (strtok_r rest)"
  by pat_completeness auto
termination
  by (relation "measure (\<lambda>t. case t of None \<Rightarrow> 0 | Some (token, rest) \<Rightarrow> Suc (length rest))")
     (auto split: option.splits dest: strtok_r_shorter)

definition line_tokens :: "string \<Rightarrow> string list" where
  "line_tokens line = strtok_all (strtok_r (c_str line))"

section \<open>The connection worker\<close>

text \<open>
  What \<open>WRITE_LOG\<close> is called with: the message and its \<open>errno\<close>. The time stamp and
  the process identifiers of the header are the logger's business.
\<close>

datatype log_entry =
  Hello
| FailedToSelect int
| FailedToReceive int
| ConnectionClosedByClient
| FailedToAccept int

datatype thread_status = NotStarted | Active | Finished

datatype pc = Polling | Reaping | Joining | Stopped

text \<open>
  The state of the process. A connection is named by a number \<open>s\<close>, fresh for every
  accepted connection (a descriptor number that the system hands out again after a
  \<open>close\<close> names a new connection). \<open>line w s\<close> is the local \<open>line\<close> of the thread
  that serves \<open>s\<close>; \<open>sent w s\<close> lists the payloads of the \<open>send\<close> calls on \<open>s\<close>, in
  order; \<open>rcvd w s\<close> is every byte that \<open>recv\<close> has returned on \<open>s\<close>; \<open>status w s\<close>
  says whether the thread of \<open>s\<close> is running or has returned (its socket closed, its
  future ready). \<open>threads\<close> is the vector of futures of \<open>main\<close>, \<open>main_pc\<close> is where
  \<open>main\<close> stands.
\<close>

record world = shared +
  logged :: "log_entry list"
  line :: "nat \<Rightarrow> string"
  sent :: "nat \<Rightarrow> string list"
  rcvd :: "nat \<Rightarrow> string"
  status :: "nat \<Rightarrow> thread_status"
  threads :: "nat list"
  main_pc :: pc
  next_socket :: nat

definition write_log :: "log_entry \<Rightarrow> world \<Rightarrow> world" where
  "write_log e w = w\<lparr>logged := logged w @ [e]\<rparr>"

text \<open>\<open>send(s, data, size, 0)\<close>; the result of \<open>send\<close> is never looked at.\<close>

definition send :: "nat \<Rightarrow> string \<Rightarrow> world \<Rightarrow> world" where
  "send s data w = w\<lparr>sent := (sent w)(s := sent w s @ [data])\<rparr>"

definition prompt :: string where
  "prompt = ''>>''"

definition crlf :: string where
  "crlf = [CR, LF]"

definition crlf_prompt :: string where
  "crlf_prompt = [CR, LF] @ ''>>''"

text \<open>
  The branch of the byte loop for a line terminator. \<open>connection_command\<close> gets a
  fresh \<open>std::stringstream\<close> and the shared \<open>running\<close>.
\<close>

definition on_terminator :: "nat \<Rightarrow> world \<Rightarrow> world" where
  "on_terminator s w =
     (let w1 =
        (if line w s \<noteq> [] then
           (let st = connection_command (line w s) \<lparr>running = running w, os = []\<rparr>;
                response = os st;
                w' = w\<lparr>running := running st\<rparr>;
                w'' = (if response \<noteq> [] then send s response (send s crlf w') else w')
            in w''\<lparr>line := (line w'')(s := [])\<rparr>)
         else w)
      in send s crlf_prompt w1)"

text \<open>The body of \<open>for (int i = 0; i < bytes_received; i++)\<close> for one byte.\<close>

definition process_byte :: "nat \<Rightarrow> char \<Rightarrow> world \<Rightarrow> world" where
  "process_byte s chr w =
     (if chr = CR \<or> chr = LF then on_terminator s w
      else if \<not> isprint chr then w
      else (let w' = send s [chr] w in w'\<lparr>line := (line w')(s := line w' s @ [chr])\<rparr>))"

fun process_buffer :: "nat \<Rightarrow> string \<Rightarrow> world \<Rightarrow> world" where
  "process_buffer s [] w = w"
| "process_buffer s (chr # buffer) w = process_buffer s buffer (process_byte s chr w)"

text \<open>
  What one pass of the worker's loop meets: the result of \<open>select\<close> and, when the
  socket is readable, of \<open>recv\<close> (\<open>Received []\<close> is the result 0; \<open>recv\<close> returns at
  most the 256 bytes of the buffer).
\<close>

datatype recv_result = RecvFailed int | Received string

datatype io_event = SelectError int | SelectTimeout | Readable recv_result

text \<open>The body of \<open>while (running)\<close> in \<open>connection\<close>.\<close>

fun connection_body :: "nat \<Rightarrow> io_event \<Rightarrow> world \<Rightarrow> world" where
  "connection_body s (SelectError errno) w =
     (write_log (FailedToSelect errno) w)\<lparr>running := False\<rparr>"
| "connection_body s SelectTimeout w = w"
| "connection_body s (Readable (RecvFailed errno)) w =
     (write_log (FailedToReceive errno) w)\<lparr>running := False\<rparr>"
| "connection_body s (Readable (Received buffer)) w =
     (if buffer = [] then (write_log ConnectionClosedByClient w)\<lparr>running := False\<rparr>
      else process_buffer s buffer (w\<lparr>rcvd := (rcvd w)(s := rcvd w s @ buffer)\<rparr>))"

text \<open>
  \<open>while (running)\<close> along the results that \<open>select\<close> and \<open>recv\<close> give: the loop
  leaves as soon as it reads \<open>running\<close> as false, whatever is still to come.
\<close>

fun connection_loop :: "nat \<Rightarrow> io_event list \<Rightarrow> world \<Rightarrow> world" where
  "connection_loop s [] w = w"
| "connection_loop s (ev # evs) w =
     (if running w then connection_loop s evs (connection_body s ev w) else w)"

text \<open>The start of \<open>connection\<close>: the prompt and the empty \<open>line\<close>.\<close>

definition connection_start :: "nat \<Rightarrow> world \<Rightarrow> world" where
  "connection_start s w = (send s prompt w)\<lparr>line := (line (send s prompt w))(s := [])\<rparr>"

definition connection :: "nat \<Rightarrow> io_event list \<Rightarrow> world \<Rightarrow> world" where
  "connection s evs w = connection_loop s evs (connection_start s w)"

section \<open>The accept loop\<close>

text \<open>
  One pass of the reap loop
  \<^verbatim>\<open>while (i != std::end(threads)) { if (ready(i)) { i->get(); threads.erase(i); } }\<close>
  with \<open>i\<close> set to \<open>std::begin(threads)\<close> before the loop and assigned nowhere else:
  \<open>None\<close> when the loop leaves, otherwise the vector after the pass. After the
  \<open>erase\<close> the iterator stands where it stood, at the first element.
\<close>

definition reap_iter :: "('t \<Rightarrow> bool) \<Rightarrow> 't list \<Rightarrow> 't list option" where
  "reap_iter ready ts =
     (case ts of
        [] \<Rightarrow> None
      | i # rest \<Rightarrow> Some (if ready i then rest else ts))"

text \<open>
  The whole reap loop, with fuel for its passes: \<open>None\<close> is a loop that has not left
  after \<open>fuel\<close> passes. \<open>ready n t\<close> is what the \<open>wait_for\<close> of pass \<open>n\<close> says of
  thread \<open>t\<close>.
\<close>

fun reap :: "nat \<Rightarrow> (nat \<Rightarrow> 't \<Rightarrow> bool) \<Rightarrow> nat \<Rightarrow> 't list \<Rightarrow> 't list option" where
  "reap 0 ready n ts = None"
| "reap (Suc fuel) ready n ts =
     (case reap_iter (ready n) ts of
        None \<Rightarrow> Some ts
      | Some ts' \<Rightarrow> reap fuel ready (Suc n) ts')"

datatype accept_result = AcceptFailed int | Accepted

datatype accept_event = AcceptSelectError int | AcceptTimeout | Acceptable accept_result

text \<open>
  Starting the thread of a new connection: the future goes to the end of \<open>threads\<close>
  and the thread enters \<open>connection\<close>, whose first action, the prompt, is taken with
  the start. The rendezvous on the condition variable is not part of this model.
\<close>

definition spawn :: "world \<Rightarrow> world" where
  "spawn w =
     (let s = next_socket w in
      connection_start s
        (w\<lparr>status := (status w)(s := Active), threads := threads w @ [s],
           next_socket := Suc s\<rparr>))"

text \<open>
  One step of \<open>main\<close>. At \<open>Polling\<close> it is one pass of \<open>while (running)\<close> up to the
  reap loop; at \<open>Reaping\<close> one pass of the reap loop; at \<open>Joining\<close> the final
  \<open>wait\<close> on every future, which returns once all threads have.
\<close>

definition main_step :: "accept_event \<Rightarrow> world \<Rightarrow> world" where
  "main_step ev w =
     (case main_pc w of
        Polling \<Rightarrow>
          (if \<not> running w then w\<lparr>main_pc := Joining\<rparr>
           else (case ev of
                   AcceptSelectError errno \<Rightarrow> write_log (FailedToSelect errno) w
                 | AcceptTimeout \<Rightarrow> w\<lparr>main_pc := Reaping\<rparr>
                 | Acceptable (AcceptFailed errno) \<Rightarrow> write_log (FailedToAccept errno) w
                 | Acceptable Accepted \<Rightarrow> spawn w))
      | Reaping \<Rightarrow>
          (case reap_iter (\<lambda>t. status w t = Finished) (threads w) of
             None \<Rightarrow> w\<lparr>main_pc := Polling\<rparr>
           | Some ts \<Rightarrow> w\<lparr>threads := ts\<rparr>)
      | Joining \<Rightarrow>
          (if list_all (\<lambda>t. status w t = Finished) (threads w)
           then w\<lparr>main_pc := Stopped\<rparr> else w)
      | Stopped \<Rightarrow> w)"

text \<open>
  One step of the thread of connection \<open>s\<close>: a pass of its loop while \<open>running\<close>
  holds; otherwise it leaves the loop, closes the socket and returns.
\<close>

definition worker_step :: "nat \<Rightarrow> io_event \<Rightarrow> world \<Rightarrow> world" where
  "worker_step s ev w =
     (if status w s \<noteq> Active then w
      else if running w then connection_body s ev w
      else w\<lparr>status := (status w)(s := Finished)\<rparr>)"

datatype step = Worker nat io_event | Main accept_event

fun sys_step :: "step \<Rightarrow> world \<Rightarrow> world" where
  "sys_step (Worker s ev) w = worker_step s ev w"
| "sys_step (Main ev) w = main_step ev w"

text \<open>The threads interleaved along a schedule.\<close>

fun run :: "step list \<Rightarrow> world \<Rightarrow> world" where
  "run [] w = w"
| "run (a # sched) w = run sched (sys_step a w)"

text \<open>The process when \<open>main\<close> reaches its accept loop: \<open>running{true}\<close>, no thread.\<close>

definition init :: world where
  "init = \<lparr>running = True, logged = [Hello], line = (\<lambda>s. []), sent = (\<lambda>s. []),
     rcvd = (\<lambda>s. []), status = (\<lambda>s. NotStarted), threads = [], main_pc = Polling,
     next_socket = 0\<rparr>"

section \<open>The handoff of an accepted socket\<close>

text \<open>
  The default branch of the switch in \<open>main\<close> (lines 369 to 396) and the lambda that
  it starts, statement by statement. \<open>main\<close> accepts, stores the descriptor in its
  local \<open>client_socket\<close>, locks \<open>cl\<close>, starts the lambda with references to
  \<open>client_socket\<close>, \<open>cl\<close> and \<open>cv\<close>, and calls \<open>cv.wait_for\<close> until a call returns
  \<open>no_timeout\<close>. The lambda copies \<open>client_socket\<close>, unlocks \<open>cl\<close>, notifies \<open>cv\<close>,
  runs \<open>connection\<close> and closes its socket.
\<close>

datatype cv_status = no_timeout | timeout

text \<open>
  Where \<open>main\<close> stands: before the \<open>accept\<close> of the next pass, about to call
  \<open>cv.wait_for\<close>, or blocked inside it.
\<close>

datatype main_at = AtAccept | AtWaitFor | InWaitFor

text \<open>
  Where a lambda stands: the statement that it runs next, \<open>Returned\<close> after its
  \<open>close\<close>, \<open>Threw\<close> when \<open>cl.unlock()\<close> has thrown.
\<close>

datatype lambda_at =
  NotLaunched | AtCopy | AtUnlock | AtNotify | AtConnection | AtClose | Returned | Threw

text \<open>
  \<open>client_socket\<close>, \<open>cl\<close> and \<open>cv\<close> are locals of the switch block that every lambda
  holds by reference; they keep their place in the frame of \<open>main\<close> from one pass to
  the next, so a lambda that runs late meets what a later pass has put there.
  \<open>cl_owns\<close> is the flag of the \<open>std::unique_lock\<close>: set by its constructor, cleared
  by \<open>unlock\<close> and by the destructor at the end of the block, left alone by
  \<open>wait_for\<close>. \<open>cv_notified\<close> says that a \<open>notify_all\<close> has reached \<open>main\<close> inside
  \<open>wait_for\<close>. \<open>my_socket h t\<close> is the local of lambda \<open>t\<close>, the lambdas numbered as
  they are started. \<open>accepted\<close>, \<open>served\<close> and \<open>closed\<close> list what \<open>accept\<close> has
  returned and what \<open>connection\<close> and \<open>close\<close> have been called with, in order.
\<close>

record handoff =
  client_socket :: int
  cl_owns :: bool
  cv_notified :: bool
  main_pos :: main_at
  thread_pos :: "nat \<Rightarrow> lambda_at"
  my_socket :: "nat \<Rightarrow> int"
  launched :: nat
  accepted :: "int list"
  served :: "int list"
  closed :: "int list"

text \<open>
  Lines 370 to 392 for the result \<open>d\<close> of \<open>accept\<close>: on -1 the pass is given up;
  otherwise the descriptor is stored, \<open>cl\<close> locked, \<open>cv\<close> made, the lambda started
  and its future appended.
\<close>

definition accept_and_launch :: "int \<Rightarrow> handoff \<Rightarrow> handoff" where
  "accept_and_launch d h =
     (if d = - 1 then h
      else h\<lparr>client_socket := d, cl_owns := True, cv_notified := False,
             thread_pos := (thread_pos h)(launched h := AtCopy),
             launched := Suc (launched h), accepted := accepted h @ [d],
             main_pos := AtWaitFor\<rparr>)"

text \<open>
  The next statement of lambda \<open>t\<close> (lines 382 to 390). \<open>unlock\<close> on a lock that is
  not owned throws \<open>std::system_error\<close>, which ends the lambda. \<open>notify_all\<close> wakes
  \<open>main\<close> if it is inside \<open>wait_for\<close> and is lost otherwise.
\<close>

definition lambda_step :: "nat \<Rightarrow> handoff \<Rightarrow> handoff" where
  "lambda_step t h =
     (case thread_pos h t of
        AtCopy \<Rightarrow>
          h\<lparr>my_socket := (my_socket h)(t := client_socket h),
            thread_pos := (thread_pos h)(t := AtUnlock)\<rparr>
      | AtUnlock \<Rightarrow>
          (if cl_owns h then h\<lparr>cl_owns := False, thread_pos := (thread_pos h)(t := AtNotify)\<rparr>
           else h\<lparr>thread_pos := (thread_pos h)(t := Threw)\<rparr>)
      | AtNotify \<Rightarrow>
          h\<lparr>cv_notified := (cv_notified h \<or> main_pos h = InWaitFor),
            thread_pos := (thread_pos h)(t := AtConnection)\<rparr>
      | AtConnection \<Rightarrow>
          h\<lparr>served := served h @ [my_socket h t], thread_pos := (thread_pos h)(t := AtClose)\<rparr>
      | AtClose \<Rightarrow>
          h\<lparr>closed := closed h @ [my_socket h t], thread_pos := (thread_pos h)(t := Returned)\<rparr>
      | _ \<Rightarrow> h)"

text \<open>
  The steps of the two sides. \<open>MainWaitForReturns r\<close> is the return of a
  \<open>cv.wait_for\<close> call with the result \<open>r\<close>: the loop of line 395 leaves on
  \<open>no_timeout\<close>, and with it the block (the destructor of \<open>cl\<close> runs), and calls
  \<open>wait_for\<close> again on \<open>timeout\<close>.
\<close>

datatype hstep = MainAccept int | MainCallsWaitFor | MainWaitForReturns cv_status | Lambda nat

fun handoff_step :: "hstep \<Rightarrow> handoff \<Rightarrow> handoff" where
  "handoff_step (MainAccept d) h = (if main_pos h = AtAccept then accept_and_launch d h else h)"
| "handoff_step MainCallsWaitFor h =
     (if main_pos h = AtWaitFor then h\<lparr>main_pos := InWaitFor\<rparr> else h)"
| "handoff_step (MainWaitForReturns r) h =
     (if main_pos h = InWaitFor
      then (if r = no_timeout then h\<lparr>main_pos := AtAccept, cl_owns := False, cv_notified := False\<rparr>
            else h\<lparr>main_pos := AtWaitFor\<rparr>)
      else h)"
| "handoff_step (Lambda t) h = lambda_step t h"

fun hrun :: "hstep list \<Rightarrow> handoff \<Rightarrow> handoff" where
  "hrun [] h = h"
| "hrun (a # sched) h = hrun sched (handoff_step a h)"

text \<open>Before the first \<open>accept\<close>; \<open>client_socket\<close> has no value yet.\<close>

definition hinit :: handoff where
  "hinit = \<lparr>client_socket = - 1, cl_owns = False, cv_notified = False, main_pos = AtAccept,
     thread_pos = (\<lambda>t. NotLaunched), my_socket = (\<lambda>t. - 1), launched = 0, accepted = [],
     served = [], closed = []\<rparr>"

text \<open>
  A \<open>wait_for\<close> may return \<open>no_timeout\<close> without any notification; the step is then
  spurious. A schedule is genuine when none of its steps is.
\<close>

definition spurious :: "hstep \<Rightarrow> handoff \<Rightarrow> bool" where
  "spurious a h = (a = MainWaitForReturns no_timeout \<and> main_pos h = InWaitFor \<and> \<not> cv_notified h)"

fun genuine :: "hstep list \<Rightarrow> handoff \<Rightarrow> bool" where
  "genuine [] h = True"
| "genuine (a # sched) h = (\<not> spurious a h \<and> genuine sched (handoff_step a h))"

text \<open>The lambda has run \<open>int my_socket = client_socket\<close>.\<close>

definition claimed :: "lambda_at \<Rightarrow> bool" where
  "claimed p = (p \<noteq> NotLaunched \<and> p \<noteq> AtCopy)"

definition past_notify :: "lambda_at \<Rightarrow> bool" where
  "past_notify p = (p = AtConnection \<or> p = AtClose \<or> p = Returned)"

text \<open>
  What holds along a genuine schedule: every lambda but the last started has
  notified, each holds the descriptor that was accepted for it, and \<open>main\<close> is
  past its wait only when the last one has notified too.
\<close>

definition handed :: "handoff \<Rightarrow> bool" where
  "handed h =
     (length (accepted h) = launched h
      \<and> (\<forall>t. launched h \<le> t \<longrightarrow> thread_pos h t = NotLaunched)
      \<and> (\<forall>t. t < launched h \<longrightarrow>
            thread_pos h t \<noteq> NotLaunched \<and> thread_pos h t \<noteq> Threw
            \<and> (thread_pos h t \<noteq> AtCopy \<longrightarrow> my_socket h t = accepted h ! t))
      \<and> (\<forall>t. t < launched h \<longrightarrow> t \<noteq> launched h - 1 \<longrightarrow> past_notify (thread_pos h t))
      \<and> (main_pos h = AtAccept \<longrightarrow> (\<forall>t. t < launched h \<longrightarrow> past_notify (thread_pos h t)))
      \<and> (main_pos h \<noteq> AtAccept \<longrightarrow>
            0 < launched h \<and> client_socket h = accepted h ! (launched h - 1)
            \<and> (cv_notified h \<longrightarrow> past_notify (thread_pos h (launched h - 1)))
            \<and> (thread_pos h (launched h - 1) = AtCopy \<or> thread_pos h (launched h - 1) = AtUnlock
                 \<longrightarrow> cl_owns h)))"

section \<open>The tokens as the specification describes them\<close>

text \<open>
  Splitting at spaces as the specification words it: a run of spaces is one delimiter
  and no token is empty. \<open>cur\<close> is the token read so far.
\<close>

fun split_ws :: "string \<Rightarrow> string \<Rightarrow> string list" where
  "split_ws cur [] = (if cur = [] then [] else [cur])"
| "split_ws cur (c # s) =
     (if c = SP then (if cur = [] then split_ws [] s else cur # split_ws [] s)
      else split_ws (cur @ [c]) s)"

section \<open>Counting prompts\<close>

text \<open>The line terminators among received bytes.\<close>

definition terminators :: "string \<Rightarrow> nat" where
  "terminators bs = length (filter (\<lambda>c. c = CR \<or> c = LF) bs)"




text \<open>
  What the thread of \<open>s\<close> may do to the transcripts between \<open>w\<close> and \<open>w'\<close>: it sends
  on \<open>s\<close> only, never the first prompt again, and one prompt for each terminator that
  it has received meanwhile.
\<close>

definition extends :: "nat \<Rightarrow> world \<Rightarrow> world \<Rightarrow> bool" where
  "extends s w w' =
     (\<exists>xs bs. sent w' = (sent w)(s := sent w s @ xs) \<and> rcvd w' = (rcvd w)(s := rcvd w s @ bs)
        \<and> count_list xs prompt = 0 \<and> count_list xs crlf_prompt = terminators bs
        \<and> status w' = status w \<and> next_socket w' = next_socket w)"

text \<open>Every line buffer holds printable bytes only.\<close>

definition lines_printable :: "world \<Rightarrow> bool" where
  "lines_printable w = (\<forall>s. list_all isprint (line w s))"

section \<open>Lemmas about the tokenizer and the actions\<close>

lemma strtok_r_Nil [simp]: "strtok_r [] = None"
  by (simp add: strtok_r_def)

lemma strtok_r_SP [simp]: "strtok_r (SP # s) = strtok_r s"
  by (simp add: strtok_r_def)

lemma strtok_r_word:
  assumes "w \<noteq> []" "SP \<notin> set w"
  shows "strtok_r (w @ SP # r) = Some (w, r)" and "strtok_r w = Some (w, [])"
proof -
  from assms obtain c w' where w: "w = c # w'" and c: "c \<noteq> SP"
    by (cases w) auto
  have tw: "takeWhile (\<lambda>c. c \<noteq> SP) (w @ SP # r) = w"
    using assms(2) by (induction w) auto
  have dw: "dropWhile (\<lambda>c. c \<noteq> SP) (w @ SP # r) = SP # r"
    using assms(2) by (induction w) auto
  have d0: "dropWhile (\<lambda>c. c = SP) (w @ SP # r) = w @ SP # r"
    using w c by simp
  show "strtok_r (w @ SP # r) = Some (w, r)"
    unfolding strtok_r_def Let_def d0 tw dw using w by simp
  have tw': "takeWhile (\<lambda>c. c \<noteq> SP) w = w" and dw': "dropWhile (\<lambda>c. c \<noteq> SP) w = []"
    using assms(2) by auto
  have d0': "dropWhile (\<lambda>c. c = SP) w = w"
    using w c by simp
  show "strtok_r w = Some (w, [])"
    unfolding strtok_r_def Let_def d0' tw' dw' using w by simp
qed

lemma strtok_all_split_ws:
  "SP \<notin> set cur \<Longrightarrow> strtok_all (strtok_r (cur @ s)) = split_ws cur s"
proof (induction s arbitrary: cur)
  case Nil
  then show ?case by (cases "cur = []") (simp_all add: strtok_r_word)
next
  case (Cons c s)
  show ?case
  proof (cases "c = SP")
    case True
    with Cons show ?thesis
      using Cons.IH [of "[]"] by (cases "cur = []") (simp_all add: strtok_r_word)
  next
    case False
    with Cons.prems have "SP \<notin> set (cur @ [c])" by simp
    from Cons.IH [OF this] False show ?thesis by simp
  qed
qed

lemma token_loop_fold: "token_loop t st = fold run_token (strtok_all t) st"
  by (induction t st rule: token_loop.induct) simp_all

lemma connection_command_fold:
  "connection_command l st = fold run_token (line_tokens l) st"
  by (simp add: connection_command_def line_tokens_def token_loop_fold)

lemma line_tokens_split_ws: "line_tokens l = split_ws [] (c_str l)"
  using strtok_all_split_ws [of "[]" "c_str l"] by (simp add: line_tokens_def)

lemma split_ws_spaces [simp]: "split_ws [] (replicate n SP @ s) = split_ws [] s"
  by (induction n) simp_all

lemma split_ws_only_spaces: "split_ws cur (replicate n SP) = (if cur = [] then [] else [cur])"
  using split_ws_spaces [of n "[]"] by (cases n) simp_all

lemma split_ws_trailing: "split_ws cur (s @ replicate n SP) = split_ws cur s"
  by (induction s arbitrary: cur) (simp_all add: split_ws_only_spaces)

lemma split_ws_run:
  "split_ws cur (a @ replicate (Suc n) SP @ b) = split_ws cur (a @ SP # b)"
  by (induction a arbitrary: cur) simp_all

lemma split_ws_nonempty: "[] \<notin> set (split_ws cur s)"
  by (induction s arbitrary: cur) simp_all

lemma split_ws_concat:
  "concat (split_ws cur s) = cur @ filter (\<lambda>c. c \<noteq> SP) s"
  by (induction s arbitrary: cur) simp_all

lemma NUL_SP [simp]: "NUL \<noteq> SP" "SP \<noteq> NUL"
  by (simp_all add: NUL_def SP_def)

lemma c_str_append:
  "c_str (a @ b) = (if NUL \<in> set a then c_str a else a @ c_str b)"
  by (auto simp: c_str_def takeWhile_append)

lemma c_str_no_NUL: "NUL \<notin> set a \<Longrightarrow> c_str a = a"
  by (induction a) (auto simp: c_str_def)

lemma c_str_spaces [simp]: "c_str (replicate n SP) = replicate n SP"
  by (simp add: c_str_no_NUL)

lemma line_tokens_leading: "line_tokens (replicate n SP @ l) = line_tokens l"
  by (simp add: line_tokens_split_ws c_str_append)

lemma line_tokens_trailing: "line_tokens (l @ replicate n SP) = line_tokens l"
  by (simp add: line_tokens_split_ws c_str_append split_ws_trailing c_str_no_NUL)

lemma line_tokens_run:
  "line_tokens (a @ replicate (Suc n) SP @ b) = line_tokens (a @ SP # b)"
proof (cases "NUL \<in> set a")
  case True
  then show ?thesis by (simp add: line_tokens_split_ws c_str_append)
next
  case False
  have "c_str (a @ replicate (Suc n) SP @ b) = a @ replicate (Suc n) SP @ c_str b"
    using False c_str_append [of a "replicate (Suc n) SP @ b"]
      c_str_append [of "replicate (Suc n) SP" b] by simp
  moreover have "c_str (a @ SP # b) = a @ SP # c_str b"
    using False c_str_append [of a "SP # b"] c_str_append [of "[SP]" b] by simp
  ultimately show ?thesis
    using split_ws_run [of "[]" a n "c_str b"] by (simp add: line_tokens_split_ws)
qed

lemma print_space: "(isprint c \<and> isspace c) = (c = SP)"
proof -
  have "(of_char c = (32::nat)) = (c = SP)"
    using of_char_eq_iff [of c SP, where ?'a = nat] by (simp add: SP_def)
  then show ?thesis
    by (auto simp: isprint_def isspace_def Let_def)
qed

lemma run_token_cases:
  "run_token t st =
     (if toupper t = ''EX'' then ex st else if toupper t = ''DIR'' then dir st else st)"
  by (simp add: run_token_def tokens_def)

lemma run_token_unknown: "tokens (toupper t) = None \<Longrightarrow> run_token t st = st"
  by (simp add: run_token_def)

lemma fold_run_token_known:
  "fold run_token (filter (\<lambda>t. tokens (toupper t) \<noteq> None) ts) st = fold run_token ts st"
  by (induction ts arbitrary: st) (auto simp: run_token_unknown)

lemma os_run_token:
  "os (run_token t st) = os st @ (if toupper t = ''DIR'' then ''Directory...'' @ [LF] else [])"
  by (simp add: run_token_cases ex_def dir_def)

lemma running_run_token:
  "running (run_token t st) = (running st \<and> toupper t \<noteq> ''EX'')"
  by (simp add: run_token_cases ex_def dir_def)

lemma os_fold_run_token:
  "os (fold run_token ts st) =
     os st @ concat (map (\<lambda>t. if toupper t = ''DIR'' then ''Directory...'' @ [LF] else []) ts)"
  by (induction ts arbitrary: st) (simp_all add: os_run_token)

lemma running_fold_run_token:
  "running (fold run_token ts st) = (running st \<and> ''EX'' \<notin> set (map toupper ts))"
  by (induction ts arbitrary: st) (auto simp: running_run_token)

lemma of_char_std_toupper:
  "of_char (std_toupper c) = (let n = (of_char c :: nat) in if 97 \<le> n \<and> n \<le> 122 then n - 32 else n)"
  by (auto simp: std_toupper_def Let_def of_char_of)

lemma std_toupper_idem: "std_toupper (std_toupper c) = std_toupper c"
proof -
  have "(of_char (std_toupper (std_toupper c)) :: nat) = of_char (std_toupper c)"
    by (auto simp: of_char_std_toupper Let_def)
  then show ?thesis by simp
qed

lemma toupper_idem: "toupper (toupper t) = toupper t"
  by (simp add: toupper_def std_toupper_idem)

lemma run_token_toupper: "run_token (toupper t) st = run_token t st"
  by (simp add: run_token_def toupper_idem)

section \<open>Lemmas about the byte loop\<close>

lemma process_buffer_append:
  "process_buffer s (a @ b) w = process_buffer s b (process_buffer s a w)"
  by (induction a arbitrary: w) simp_all

lemma process_byte_plain:
  "c \<noteq> CR \<Longrightarrow> c \<noteq> LF \<Longrightarrow>
   process_byte s c w =
     (if isprint c
      then w\<lparr>sent := (sent w)(s := sent w s @ [[c]]), line := (line w)(s := line w s @ [c])\<rparr>
      else w)"
  by (simp add: process_byte_def send_def Let_def)

lemma process_buffer_plain:
  "CR \<notin> set bs \<Longrightarrow> LF \<notin> set bs \<Longrightarrow>
   process_buffer s bs w =
     w\<lparr>sent := (sent w)(s := sent w s @ map (\<lambda>c. [c]) (filter isprint bs)),
       line := (line w)(s := line w s @ filter isprint bs)\<rparr>"
proof (induction bs arbitrary: w)
  case Nil
  then show ?case by simp
next
  case (Cons c bs)
  then have c: "c \<noteq> CR" "c \<noteq> LF" and bs: "CR \<notin> set bs" "LF \<notin> set bs"
    by auto
  note step = process_byte_plain [OF c, of s w]
  show ?case
  proof (cases "isprint c")
    case True
    with step Cons.IH [OF bs, of "process_byte s c w"] show ?thesis
      by (simp add: fun_eq_iff)
  next
    case False
    with step Cons.IH [OF bs, of w] show ?thesis
      by simp
  qed
qed

lemma isprint_not_terminator: "isprint c \<Longrightarrow> c \<noteq> CR \<and> c \<noteq> LF \<and> c \<noteq> NUL"
  by (auto simp: isprint_def CR_def LF_def NUL_def)

lemma on_terminator_empty:
  "line w s = [] \<Longrightarrow> on_terminator s w = send s crlf_prompt w"
  by (simp add: on_terminator_def)

lemma on_terminator_line:
  "line w s \<noteq> [] \<Longrightarrow>
   on_terminator s w =
     (let ts = line_tokens (line w s);
          response = concat (map (\<lambda>t. if toupper t = ''DIR'' then ''Directory...'' @ [LF] else []) ts)
      in w\<lparr>running := running w \<and> ''EX'' \<notin> set (map toupper ts),
           sent := (sent w)(s := sent w s @ (if response = [] then [] else [crlf, response]) @ [crlf_prompt]),
           line := (line w)(s := [])\<rparr>)"
  by (simp add: on_terminator_def Let_def connection_command_fold os_fold_run_token
      running_fold_run_token send_def)

lemma list_all_isprint_plain:
  "list_all isprint l \<Longrightarrow> CR \<notin> set l \<and> LF \<notin> set l \<and> filter isprint l = l"
  by (induction l) (auto dest: isprint_not_terminator)

lemma line_tokens_Nil: "line_tokens [] = []"
  by (simp add: line_tokens_def c_str_def)

lemma lines_printable_on_terminator:
  "lines_printable w \<Longrightarrow> lines_printable (on_terminator s' w)"
  by (cases "line w s' = []")
    (simp_all add: on_terminator_empty on_terminator_line send_def Let_def lines_printable_def)

lemma lines_printable_process_byte:
  "lines_printable w \<Longrightarrow> lines_printable (process_byte s' c w)"
  by (auto simp: process_byte_def lines_printable_on_terminator)
    (simp add: lines_printable_def send_def Let_def)

lemma lines_printable_process_buffer:
  "lines_printable w \<Longrightarrow> lines_printable (process_buffer s' bs w)"
  by (induction bs arbitrary: w) (simp_all add: lines_printable_process_byte)

lemma lines_printable_connection_body:
  "lines_printable w \<Longrightarrow> lines_printable (connection_body s' ev w)"
proof (induction s' ev w rule: connection_body.induct)
  case (4 s buffer w)
  then have "lines_printable (w\<lparr>rcvd := (rcvd w)(s := rcvd w s @ buffer)\<rparr>)"
    by (simp add: lines_printable_def)
  then show ?case
    by (simp add: lines_printable_process_buffer) (simp add: lines_printable_def write_log_def)
qed (simp_all add: lines_printable_def write_log_def)

lemma lines_printable_sys_step:
  assumes "lines_printable w"
  shows "lines_printable (sys_step a w)"
proof (cases a)
  case (Worker s ev)
  with assms lines_printable_connection_body [OF assms, of s ev] show ?thesis
    by (simp add: worker_step_def) (simp add: lines_printable_def)
next
  case (Main ev)
  with assms show ?thesis
    by (auto simp: main_step_def write_log_def spawn_def connection_start_def send_def Let_def
        lines_printable_def
        split: pc.splits accept_event.splits accept_result.splits option.splits)
qed

lemma lines_printable_run: "lines_printable w \<Longrightarrow> lines_printable (run sched w)"
  by (induction sched arbitrary: w) (simp_all add: lines_printable_sys_step)

lemma reachable_lines_printable: "list_all isprint (line (run sched init) s)"
  using lines_printable_run [of init sched] by (simp add: lines_printable_def init_def)

section \<open>Lemmas about the transcripts\<close>

lemma terminators_simps [simp]:
  "terminators [] = 0"
  "terminators (c # bs) = (if c = CR \<or> c = LF then Suc (terminators bs) else terminators bs)"
  "terminators (a @ b) = terminators a + terminators b"
  by (simp_all add: terminators_def)

lemma starts_D_run_token:
  "(case os st of [] \<Rightarrow> True | c # _ \<Rightarrow> c = CHR ''D'') \<Longrightarrow>
   (case os (run_token t st) of [] \<Rightarrow> True | c # _ \<Rightarrow> c = CHR ''D'')"
  by (cases "os st") (simp_all add: os_run_token)

lemma starts_D_fold:
  "(case os st of [] \<Rightarrow> True | c # _ \<Rightarrow> c = CHR ''D'') \<Longrightarrow>
   (case os (fold run_token ts st) of [] \<Rightarrow> True | c # _ \<Rightarrow> c = CHR ''D'')"
proof (induction ts arbitrary: st)
  case Nil
  then show ?case by simp
next
  case (Cons t ts)
  from Cons.IH [OF starts_D_run_token [OF Cons.prems]] show ?case by simp
qed

lemma response_not_prompt:
  "os (connection_command l \<lparr>running = r, os = []\<rparr>) \<noteq> prompt
   \<and> os (connection_command l \<lparr>running = r, os = []\<rparr>) \<noteq> crlf_prompt"
  using starts_D_fold [of "\<lparr>running = r, os = []\<rparr>" "line_tokens l"]
  by (cases "os (fold run_token (line_tokens l) \<lparr>running = r, os = []\<rparr>)")
    (simp_all add: connection_command_fold prompt_def crlf_prompt_def CR_def)

lemma prompt_distinct [simp]:
  "crlf \<noteq> prompt" "crlf \<noteq> crlf_prompt" "crlf_prompt \<noteq> prompt" "prompt \<noteq> crlf_prompt"
  "[c] \<noteq> prompt" "[c] \<noteq> crlf_prompt"
  by (simp_all add: prompt_def crlf_prompt_def crlf_def CR_def)

lemma extends_refl: "extends s w w"
  unfolding extends_def by (rule exI [of _ "[]"], rule exI [of _ "[]"]) simp

lemma extends_trans:
  assumes "extends s w w'" and "extends s w' w''"
  shows "extends s w w''"
proof -
  from assms(1) obtain xs bs where 1: "sent w' = (sent w)(s := sent w s @ xs)"
    "rcvd w' = (rcvd w)(s := rcvd w s @ bs)" "count_list xs prompt = 0"
    "count_list xs crlf_prompt = terminators bs" "status w' = status w"
    "next_socket w' = next_socket w"
    unfolding extends_def by blast
  from assms(2) obtain ys cs where 2: "sent w'' = (sent w')(s := sent w' s @ ys)"
    "rcvd w'' = (rcvd w')(s := rcvd w' s @ cs)" "count_list ys prompt = 0"
    "count_list ys crlf_prompt = terminators cs" "status w'' = status w'"
    "next_socket w'' = next_socket w'"
    unfolding extends_def by blast
  show ?thesis
    unfolding extends_def
    by (rule exI [of _ "xs @ ys"], rule exI [of _ "bs @ cs"]) (simp add: 1 2)
qed

lemma extends_send:
  "count_list [x] prompt = 0 \<Longrightarrow> count_list [x] crlf_prompt = 0 \<Longrightarrow> extends s w (send s x w)"
  unfolding extends_def by (rule exI [of _ "[x]"], rule exI [of _ "[]"]) (simp add: send_def)

lemma sent_on_terminator:
  "\<exists>xs. sent (on_terminator s w) = (sent w)(s := sent w s @ xs)
     \<and> count_list xs prompt = 0 \<and> count_list xs crlf_prompt = 1"
proof (cases "line w s = [] \<or> os (connection_command (line w s) \<lparr>running = running w, os = []\<rparr>) = []")
  case True
  then show ?thesis
    by (intro exI [of _ "[crlf_prompt]"]) (auto simp: on_terminator_def send_def Let_def)
next
  case False
  then show ?thesis
    using response_not_prompt [of "line w s" "running w"]
    by (intro exI [of _ "[crlf, os (connection_command (line w s) \<lparr>running = running w, os = []\<rparr>), crlf_prompt]"])
       (auto simp: on_terminator_def send_def Let_def)
qed

lemma frame_on_terminator:
  "rcvd (on_terminator s w) = rcvd w \<and> status (on_terminator s w) = status w
   \<and> next_socket (on_terminator s w) = next_socket w \<and> threads (on_terminator s w) = threads w
   \<and> main_pc (on_terminator s w) = main_pc w \<and> logged (on_terminator s w) = logged w"
  by (simp add: on_terminator_def send_def Let_def)

lemma sent_process_byte:
  "\<exists>xs. sent (process_byte s c w) = (sent w)(s := sent w s @ xs)
     \<and> count_list xs prompt = 0 \<and> count_list xs crlf_prompt = terminators [c]"
proof (cases "c = CR \<or> c = LF")
  case True
  then show ?thesis
    using sent_on_terminator [of s w] by (auto simp: process_byte_def)
next
  case False
  then show ?thesis
    by (cases "isprint c")
      (auto simp: process_byte_def send_def Let_def intro: exI [of _ "[]"] exI [of _ "[[c]]"])
qed

lemma frame_process_byte:
  "rcvd (process_byte s c w) = rcvd w \<and> status (process_byte s c w) = status w
   \<and> next_socket (process_byte s c w) = next_socket w \<and> threads (process_byte s c w) = threads w
   \<and> main_pc (process_byte s c w) = main_pc w \<and> logged (process_byte s c w) = logged w"
  by (simp add: process_byte_def frame_on_terminator send_def Let_def)

lemma sent_process_buffer:
  "\<exists>xs. sent (process_buffer s bs w) = (sent w)(s := sent w s @ xs)
     \<and> count_list xs prompt = 0 \<and> count_list xs crlf_prompt = terminators bs"
proof (induction bs arbitrary: w)
  case Nil
  show ?case by (intro exI [of _ "[]"]) simp
next
  case (Cons c bs)
  from sent_process_byte [of s c w] obtain xs where
    1: "sent (process_byte s c w) = (sent w)(s := sent w s @ xs)"
      "count_list xs prompt = 0" "count_list xs crlf_prompt = terminators [c]"
    by blast
  from Cons [of "process_byte s c w"] obtain ys where
    2: "sent (process_buffer s bs (process_byte s c w)) =
          (sent (process_byte s c w))(s := sent (process_byte s c w) s @ ys)"
      "count_list ys prompt = 0" "count_list ys crlf_prompt = terminators bs"
    by blast
  show ?case
    using 1 2 by (intro exI [of _ "xs @ ys"]) simp
qed

lemma frame_process_buffer:
  "rcvd (process_buffer s bs w) = rcvd w \<and> status (process_buffer s bs w) = status w
   \<and> next_socket (process_buffer s bs w) = next_socket w \<and> threads (process_buffer s bs w) = threads w
   \<and> main_pc (process_buffer s bs w) = main_pc w \<and> logged (process_buffer s bs w) = logged w"
  by (induction bs arbitrary: w) (simp_all add: frame_process_byte)

lemma extends_connection_body: "extends s w (connection_body s ev w)"
proof (cases ev)
  case (SelectError e)
  then show ?thesis using extends_refl [of s w] by (simp add: extends_def write_log_def)
next
  case SelectTimeout
  then show ?thesis by (simp add: extends_refl)
next
  case (Readable r)
  show ?thesis
  proof (cases r)
    case (RecvFailed e)
    with Readable show ?thesis using extends_refl [of s w] by (simp add: extends_def write_log_def)
  next
    case (Received buffer)
    show ?thesis
    proof (cases "buffer = []")
      case True
      with Readable Received show ?thesis
        using extends_refl [of s w] by (simp add: extends_def write_log_def)
    next
      case False
      let ?w = "w\<lparr>rcvd := (rcvd w)(s := rcvd w s @ buffer)\<rparr>"
      from sent_process_buffer [of s buffer ?w] obtain xs where
        "sent (process_buffer s buffer ?w) = (sent ?w)(s := sent ?w s @ xs)"
        "count_list xs prompt = 0" "count_list xs crlf_prompt = terminators buffer"
        by blast
      with False Readable Received frame_process_buffer [of s buffer ?w] show ?thesis
        unfolding extends_def
        by (intro exI [of _ xs] exI [of _ buffer]) simp
    qed
  qed
qed











section \<open>Lemmas about the flag and the reap loop\<close>

lemma running_on_terminator: "running (on_terminator s w) \<Longrightarrow> running w"
  by (cases "line w s = []")
    (simp_all add: on_terminator_empty on_terminator_line send_def Let_def)

lemma running_process_byte: "running (process_byte s c w) \<Longrightarrow> running w"
  by (auto simp: process_byte_def send_def Let_def dest: running_on_terminator split: if_splits)

lemma running_process_buffer: "running (process_buffer s bs w) \<Longrightarrow> running w"
  by (induction bs arbitrary: w) (auto dest: running_process_byte)

lemma running_connection_body: "running (connection_body s ev w) \<Longrightarrow> running w"
  by (induction s ev w rule: connection_body.induct)
    (auto simp: write_log_def dest: running_process_buffer split: if_splits)

lemma running_connection_loop: "running (connection_loop s evs w) \<Longrightarrow> running w"
  by (induction evs arbitrary: w) (auto dest: running_connection_body split: if_splits)

lemma running_connection: "running (connection s evs w) \<Longrightarrow> running w"
  by (auto simp: connection_def connection_start_def send_def dest: running_connection_loop)

lemma running_worker_step: "running (worker_step s ev w) \<Longrightarrow> running w"
  by (auto simp: worker_step_def dest: running_connection_body split: if_splits)

lemma running_main_step: "running (main_step ev w) \<Longrightarrow> running w"
  by (auto simp: main_step_def write_log_def spawn_def connection_start_def send_def Let_def
      split: pc.splits accept_event.splits accept_result.splits option.splits if_splits)

lemma running_sys_step: "running (sys_step a w) \<Longrightarrow> running w"
  by (cases a) (auto dest: running_worker_step running_main_step)

lemma running_run: "running (run sched w) \<Longrightarrow> running w"
  by (induction sched arbitrary: w) (auto dest: running_sys_step)

lemma reap_stuck: "reap fuel (\<lambda>n t. t \<noteq> i) n (i # rest) = None"
  by (induction fuel arbitrary: n) (simp_all add: reap_iter_def)

lemma reap_result: "reap fuel ready n ts = None \<or> reap fuel ready n ts = Some []"
proof (induction fuel arbitrary: n ts)
  case 0
  then show ?case by simp
next
  case (Suc fuel)
  show ?case
  proof (cases ts)
    case Nil
    then show ?thesis by (simp add: reap_iter_def)
  next
    case (Cons i rest)
    with Suc [of "Suc n" rest] Suc [of "Suc n" ts] show ?thesis
      by (simp add: reap_iter_def)
  qed
qed

lemma reap_all_ready: "reap (Suc (length ts)) (\<lambda>n t. True) n ts = Some []"
  by (induction ts arbitrary: n) (simp_all add: reap_iter_def)

lemma stuck_reaping:
  assumes "main_pc w = Reaping" and "threads w = i # rest" and "status w i = Active"
  shows "run (replicate k (Main ev)) w = w"
proof (induction k)
  case 0
  show ?case by simp
next
  case (Suc k)
  have "main_step ev w = w"
    using assms by (simp add: main_step_def reap_iter_def)
  with Suc show ?case by simp
qed

section \<open>Lemmas about the handoff\<close>

lemma handed_init: "handed hinit"
  by (simp add: handed_def hinit_def)

lemma handed_accept:
  assumes "handed h" and "main_pos h = AtAccept"
  shows "handed (accept_and_launch d h)"
proof (cases "d = - 1")
  case True
  with assms show ?thesis by (simp add: accept_and_launch_def)
next
  case False
  with assms show ?thesis
    unfolding handed_def accept_and_launch_def
    by (auto simp: nth_append less_Suc_eq past_notify_def)
qed

lemma handed_launched:
  assumes "handed h" and "thread_pos h t \<noteq> NotLaunched"
  shows "t < launched h"
proof (rule ccontr)
  assume "\<not> t < launched h"
  then have "launched h \<le> t" by simp
  with assms(1) have "thread_pos h t = NotLaunched"
    unfolding handed_def by blast
  with assms(2) show False by simp
qed

lemma handed_latest:
  assumes "handed h" and "t < launched h" and "\<not> past_notify (thread_pos h t)"
  shows "t = launched h - 1" and "main_pos h \<noteq> AtAccept"
  using assms unfolding handed_def by blast+

lemma handed_lambda:
  assumes "handed h"
  shows "handed (lambda_step t h)"
proof (cases "thread_pos h t")
  case AtCopy
  then have lt: "t < launched h"
    using handed_launched [OF assms, of t] by simp
  from AtCopy have "\<not> past_notify (thread_pos h t)"
    by (simp add: past_notify_def)
  from handed_latest [OF assms lt this] have t: "t = launched h - 1" "main_pos h \<noteq> AtAccept" .
  have eq: "lambda_step t h = h\<lparr>my_socket := (my_socket h)(t := client_socket h),
            thread_pos := (thread_pos h)(t := AtUnlock)\<rparr>"
    using AtCopy by (simp add: lambda_step_def)
  from assms lt t AtCopy show ?thesis
    unfolding eq handed_def by (simp add: past_notify_def)
next
  case AtUnlock
  then have lt: "t < launched h"
    using handed_launched [OF assms, of t] by simp
  from AtUnlock have "\<not> past_notify (thread_pos h t)"
    by (simp add: past_notify_def)
  from handed_latest [OF assms lt this] have t: "t = launched h - 1" "main_pos h \<noteq> AtAccept" .
  with assms AtUnlock have o: "cl_owns h"
    unfolding handed_def by simp
  have eq: "lambda_step t h = h\<lparr>cl_owns := False, thread_pos := (thread_pos h)(t := AtNotify)\<rparr>"
    using AtUnlock o by (simp add: lambda_step_def)
  from assms lt t AtUnlock show ?thesis
    unfolding eq handed_def by (simp add: past_notify_def)
next
  case AtNotify
  then have lt: "t < launched h"
    using handed_launched [OF assms, of t] by simp
  from AtNotify have "\<not> past_notify (thread_pos h t)"
    by (simp add: past_notify_def)
  from handed_latest [OF assms lt this] have t: "t = launched h - 1" "main_pos h \<noteq> AtAccept" .
  have eq: "lambda_step t h = h\<lparr>cv_notified := (cv_notified h \<or> main_pos h = InWaitFor),
            thread_pos := (thread_pos h)(t := AtConnection)\<rparr>"
    using AtNotify by (simp add: lambda_step_def)
  from assms lt t AtNotify show ?thesis
    unfolding eq handed_def by (simp add: past_notify_def)
next
  case AtConnection
  then have lt: "t < launched h"
    using handed_launched [OF assms, of t] by simp
  have eq: "lambda_step t h = h\<lparr>served := served h @ [my_socket h t],
            thread_pos := (thread_pos h)(t := AtClose)\<rparr>"
    using AtConnection by (simp add: lambda_step_def)
  from assms lt AtConnection show ?thesis
    unfolding eq handed_def by (simp add: past_notify_def)
next
  case AtClose
  then have lt: "t < launched h"
    using handed_launched [OF assms, of t] by simp
  have eq: "lambda_step t h = h\<lparr>closed := closed h @ [my_socket h t],
            thread_pos := (thread_pos h)(t := Returned)\<rparr>"
    using AtClose by (simp add: lambda_step_def)
  from assms lt AtClose show ?thesis
    unfolding eq handed_def by (simp add: past_notify_def)
qed (simp_all add: lambda_step_def assms)

lemma handed_step:
  assumes "handed h" and "\<not> spurious a h"
  shows "handed (handoff_step a h)"
proof (cases a)
  case (MainAccept d)
  with assms show ?thesis by (simp add: handed_accept)
next
  case MainCallsWaitFor
  with assms show ?thesis by (auto simp: handed_def)
next
  case (MainWaitForReturns r)
  with assms show ?thesis
    by (cases r) (auto simp: handed_def spurious_def)
next
  case (Lambda t)
  with assms show ?thesis by (simp add: handed_lambda)
qed

lemma handed_run: "handed h \<Longrightarrow> genuine sched h \<Longrightarrow> handed (hrun sched h)"
  by (induction sched arbitrary: h) (simp_all add: handed_step)

lemma closed_lambda_step:
  "closed (lambda_step t h) = closed h @ (if thread_pos h t = AtClose then [my_socket h t] else [])"
  by (cases "thread_pos h t") (simp_all add: lambda_step_def)

lemma main_step_frame:
  assumes "s < next_socket w"
  shows "sent (main_step ev w) s = sent w s \<and> rcvd (main_step ev w) s = rcvd w s
     \<and> line (main_step ev w) s = line w s \<and> status (main_step ev w) s = status w s
     \<and> next_socket w \<le> next_socket (main_step ev w)"
  using assms
  by (auto simp: main_step_def write_log_def spawn_def connection_start_def send_def Let_def
      split: pc.splits accept_event.splits accept_result.splits option.splits)

lemma worker_step_finished:
  assumes "status w s = Finished"
  shows "status (worker_step s' ev w) s = Finished \<and> sent (worker_step s' ev w) s = sent w s
     \<and> next_socket (worker_step s' ev w) = next_socket w"
proof (cases "status w s' = Active \<and> running w")
  case True
  with assms have ne: "s \<noteq> s'" by auto
  from extends_connection_body [of s' w ev] obtain xs where
    "sent (connection_body s' ev w) = (sent w)(s' := sent w s' @ xs)"
    "status (connection_body s' ev w) = status w"
    "next_socket (connection_body s' ev w) = next_socket w"
    unfolding extends_def by blast
  with True ne assms show ?thesis
    by (simp add: worker_step_def)
next
  case False
  with assms show ?thesis
    by (auto simp: worker_step_def)
qed

lemma finished_stays:
  "s < next_socket w \<Longrightarrow> status w s = Finished \<Longrightarrow>
   status (run sched w) s = Finished \<and> sent (run sched w) s = sent w s"
proof (induction sched arbitrary: w)
  case Nil
  then show ?case by simp
next
  case (Cons a sched)
  have "s < next_socket (sys_step a w) \<and> status (sys_step a w) s = Finished
      \<and> sent (sys_step a w) s = sent w s"
  proof (cases a)
    case (Worker s' ev)
    with Cons.prems worker_step_finished [of w s s' ev] show ?thesis by simp
  next
    case (Main ev)
    with Cons.prems main_step_frame [of s w ev] show ?thesis by simp
  qed
  with Cons.IH [of "sys_step a w"] show ?case by simp
qed

section \<open>The claims about dispatch\<close>

text \<open>
  Claim C7. The action \<open>ex\<close> clears \<open>running\<close> (it sets the ShutdownFlag) and
  writes nothing to the response stream; the action \<open>dir\<close> appends the line
  "Directory..." with its line feed and leaves \<open>running\<close> as it was. The table binds
  EX and DIR to them and has no other key.
\<close>

theorem builtin_actions: 
  "running (ex st) = False \<and> os (ex st) = os st
   \<and> os (dir st) = os st @ ''Directory...'' @ [LF] \<and> running (dir st) = running st
   \<and> tokens ''EX'' = Some ex \<and> tokens ''DIR'' = Some dir \<and> dom tokens = {''EX'', ''DIR''}"
  by (auto simp: ex_def dir_def tokens_def)

text \<open>
  Claim C6. A token whose uppercased form is no key of the table changes nothing:
  no output, no change of \<open>running\<close>. Dispatching a line is running, from left to
  right, the tokens that the table knows; the others might as well be absent.
\<close>

theorem unknown_tokens_ignored:
  "(tokens (toupper token) = None \<longrightarrow> run_token token st = st)
   \<and> connection_command l st =
       fold run_token (filter (\<lambda>t. tokens (toupper t) \<noteq> None) (line_tokens l)) st"
  unfolding connection_command_fold fold_run_token_known
  by (simp add: run_token_unknown)

theorem unknown_tokens_ignored_witness:
  "tokens (toupper ''foo'') = None
   \<and> run_token ''foo'' \<lparr>running = True, os = ''abc''\<rparr> = \<lparr>running = True, os = ''abc''\<rparr>
   \<and> connection_command ''dir foo DIR'' \<lparr>running = True, os = []\<rparr> =
       fold run_token [''dir'', ''DIR''] \<lparr>running = True, os = []\<rparr>"
proof -
  have h: "tokens (toupper ''foo'') = None" by code_simp
  have t: "filter (\<lambda>t. tokens (toupper t) \<noteq> None) (line_tokens ''dir foo DIR'') = [''dir'', ''DIR'']"
    by code_simp
  from unknown_tokens_ignored [where token = "''foo''" and st = "\<lparr>running = True, os = ''abc''\<rparr>"] h
  have a: "run_token ''foo'' \<lparr>running = True, os = ''abc''\<rparr> = \<lparr>running = True, os = ''abc''\<rparr>"
    by simp
  from unknown_tokens_ignored [where l = "''dir foo DIR''" and st = "\<lparr>running = True, os = []\<rparr>"] t
  have b: "connection_command ''dir foo DIR'' \<lparr>running = True, os = []\<rparr> =
       fold run_token [''dir'', ''DIR''] \<lparr>running = True, os = []\<rparr>"
    by simp
  from h a b show ?thesis by simp
qed

text \<open>
  Claim C5. The line " dir  DIR " yields the tokens "dir" and "DIR", runs the action
  \<open>dir\<close> twice and appends the placeholder line twice. In general no token is empty,
  the tokens put together are the bytes of the line that are not spaces, leading and
  trailing spaces change nothing, and a run of spaces counts as one space. The
  delimiter of \<open>strtok_r\<close> is the space alone: a line buffer of the process holds
  printable bytes only, whatever the threads have done, and among the printable
  bytes the space is the only whitespace. A token and its uppercased form run the
  same action: "Dir" runs \<open>dir\<close> and "eX" runs \<open>ex\<close>.
\<close>

theorem dispatch_tokenizes_on_spaces:
  "line_tokens '' dir  DIR '' = [''dir'', ''DIR'']
   \<and> connection_command '' dir  DIR '' st = dir (dir st)
   \<and> os (connection_command '' dir  DIR '' st) =
       os st @ ''Directory...'' @ [LF] @ ''Directory...'' @ [LF]
   \<and> running (connection_command '' dir  DIR '' st) = running st
   \<and> [] \<notin> set (line_tokens l)
   \<and> concat (line_tokens l) = filter (\<lambda>c. c \<noteq> SP) (c_str l)
   \<and> line_tokens (replicate n SP @ l) = line_tokens l
   \<and> line_tokens (l @ replicate n SP) = line_tokens l
   \<and> line_tokens (a @ replicate (Suc n) SP @ b) = line_tokens (a @ SP # b)
   \<and> list_all isprint (line (run sched init) s)
   \<and> (isprint c \<and> isspace c) = (c = SP)
   \<and> run_token (toupper t) st = run_token t st
   \<and> run_token ''Dir'' st = dir st \<and> run_token ''eX'' st = ex st"
proof -
  have t: "line_tokens '' dir  DIR '' = [''dir'', ''DIR'']"
    by code_simp
  have u: "toupper ''dir'' = ''DIR''" "toupper ''DIR'' = ''DIR''"
    by code_simp+
  have v: "toupper ''Dir'' = ''DIR''" "toupper ''eX'' = ''EX''"
    by code_simp+
  have m: "run_token ''Dir'' st = dir st" "run_token ''eX'' st = ex st"
    by (simp_all add: run_token_cases v)
  have c: "connection_command '' dir  DIR '' st = dir (dir st)"
    by (simp add: connection_command_fold t run_token_cases u)
  have o: "os (connection_command '' dir  DIR '' st) =
       os st @ ''Directory...'' @ [LF] @ ''Directory...'' @ [LF]"
    by (simp add: c dir_def)
  have r: "running (connection_command '' dir  DIR '' st) = running st"
    by (simp add: c dir_def)
  have e: "[] \<notin> set (line_tokens l)"
    by (simp add: line_tokens_split_ws split_ws_nonempty)
  have f: "concat (line_tokens l) = filter (\<lambda>c. c \<noteq> SP) (c_str l)"
    by (simp add: line_tokens_split_ws split_ws_concat)
  note g = line_tokens_leading [of n l] line_tokens_trailing [of l n] line_tokens_run [of a n b]
    reachable_lines_printable [of sched s] print_space [of c] run_token_toupper [of t st]
  from t c o r e f g m show ?thesis
    by blast
qed

section \<open>The claims about the connection worker\<close>



text \<open>
  Claim C4. For bytes without a terminator, the loop sends each printable byte on
  its own, in the order received, and appends it to the line; the other bytes are
  neither sent nor appended. A terminator that follows is handled in the state where
  all those echoes have been sent: the transcript then holds the echoes, after them
  the response to the line made of the printable bytes, and last the prompt.
\<close>

theorem echo_before_terminator:
  assumes "CR \<notin> set bs" and "LF \<notin> set bs"
  shows "process_buffer s bs w =
           w\<lparr>sent := (sent w)(s := sent w s @ map (\<lambda>c. [c]) (filter isprint bs)),
             line := (line w)(s := line w s @ filter isprint bs)\<rparr>
         \<and> (t = CR \<or> t = LF \<longrightarrow>
              process_buffer s (bs @ [t]) w =
                on_terminator s
                  (w\<lparr>sent := (sent w)(s := sent w s @ map (\<lambda>c. [c]) (filter isprint bs)),
                     line := (line w)(s := line w s @ filter isprint bs)\<rparr>))
         \<and> (t = CR \<or> t = LF \<longrightarrow>
              sent (process_buffer s (bs @ [t]) w) s =
                sent w s @ map (\<lambda>c. [c]) (filter isprint bs) @
                (let l = line w s @ filter isprint bs;
                     response = os (connection_command l \<lparr>running = running w, os = []\<rparr>)
                 in if l = [] \<or> response = [] then [] else [crlf, response]) @
                [crlf_prompt])"
proof -
  let ?w = "w\<lparr>sent := (sent w)(s := sent w s @ map (\<lambda>c. [c]) (filter isprint bs)),
             line := (line w)(s := line w s @ filter isprint bs)\<rparr>"
  have a: "process_buffer s bs w = ?w"
    using assms by (rule process_buffer_plain)
  have b: "process_buffer s (bs @ [t]) w = on_terminator s ?w" if "t = CR \<or> t = LF"
    using that by (simp add: process_buffer_append a process_byte_def)
  have c: "sent (on_terminator s ?w) s =
             sent w s @ map (\<lambda>c. [c]) (filter isprint bs) @
                (let l = line w s @ filter isprint bs;
                     response = os (connection_command l \<lparr>running = running w, os = []\<rparr>)
                 in if l = [] \<or> response = [] then [] else [crlf, response]) @
                [crlf_prompt]"
    by (simp add: on_terminator_def Let_def send_def)
  from a b c show ?thesis
    by simp
qed

theorem echo_before_terminator_witness:
  "CR \<notin> set (''d'' @ [CHR 0x07] @ ''ir'') \<and> LF \<notin> set (''d'' @ [CHR 0x07] @ ''ir'')
   \<and> sent (process_buffer 0 (''d'' @ [CHR 0x07] @ ''ir'') init) 0 = [''d'', ''i'', ''r'']
   \<and> line (process_buffer 0 (''d'' @ [CHR 0x07] @ ''ir'') init) 0 = ''dir''
   \<and> sent (process_buffer 0 ((''d'' @ [CHR 0x07] @ ''ir'') @ [CR]) init) 0 =
       [''d'', ''i'', ''r'', crlf, ''Directory...'' @ [LF], crlf_prompt]"
proof -
  have h: "CR \<notin> set (''d'' @ [CHR 0x07] @ ''ir'')" "LF \<notin> set (''d'' @ [CHR 0x07] @ ''ir'')"
    by (simp_all add: CR_def LF_def)
  have f: "filter isprint (''d'' @ [CHR 0x07] @ ''ir'') = ''dir''"
    by (simp add: isprint_def)
  have r: "os (connection_command ''dir'' \<lparr>running = True, os = []\<rparr>) = ''Directory...'' @ [LF]"
    by code_simp
  note th = echo_before_terminator [OF h, of 0 init CR]
  from th [THEN conjunct1] f
  have a: "sent (process_buffer 0 (''d'' @ [CHR 0x07] @ ''ir'') init) 0 = [''d'', ''i'', ''r'']
    \<and> line (process_buffer 0 (''d'' @ [CHR 0x07] @ ''ir'') init) 0 = ''dir''"
    by (simp add: init_def del: process_buffer.simps)
  from th [THEN conjunct2, THEN conjunct2] f r
  have c: "sent (process_buffer 0 ((''d'' @ [CHR 0x07] @ ''ir'') @ [CR]) init) 0 =
       [''d'', ''i'', ''r'', crlf, ''Directory...'' @ [LF], crlf_prompt]"
    by (simp add: init_def del: process_buffer.simps)
  from h a c show ?thesis
    by blast
qed

text \<open>
  Claim C10. When the line that a terminator completes holds the token EX, the pass
  of the worker's loop still sends the echoes, the response of all tokens of the
  line in order (those after EX too) and the prompt; only then the loop reads
  \<open>running\<close>, finds it false and leaves, whatever would be received next. In
  dispatch the tokens after EX run after \<open>ex\<close>.
\<close>

theorem ex_line_processed_to_completion:
  "(running w \<and> list_all isprint l \<and> (t = CR \<or> t = LF)
      \<and> ''EX'' \<in> set (map toupper (line_tokens (line w s @ l))) \<longrightarrow>
    connection_loop s (Readable (Received (l @ [t])) # evs) w =
      w\<lparr>running := False,
        rcvd := (rcvd w)(s := rcvd w s @ l @ [t]),
        sent := (sent w)(s := sent w s @ map (\<lambda>c. [c]) l @
          (let response = concat (map (\<lambda>token. if toupper token = ''DIR''
                            then ''Directory...'' @ [LF] else []) (line_tokens (line w s @ l)))
           in if response = [] then [] else [crlf, response]) @ [crlf_prompt]),
        line := (line w)(s := [])\<rparr>)
   \<and> (line_tokens l' = pre @ token # post \<and> toupper token = ''EX'' \<longrightarrow>
        connection_command l' st = fold run_token post (ex (fold run_token pre st)))"
proof -
  have second: "connection_command l' st = fold run_token post (ex (fold run_token pre st))"
    if "line_tokens l' = pre @ token # post" and "toupper token = ''EX''"
    using that by (simp add: connection_command_fold run_token_cases)
  have first: "connection_loop s (Readable (Received (l @ [t])) # evs) w =
      w\<lparr>running := False,
        rcvd := (rcvd w)(s := rcvd w s @ l @ [t]),
        sent := (sent w)(s := sent w s @ map (\<lambda>c. [c]) l @
          (let response = concat (map (\<lambda>token. if toupper token = ''DIR''
                            then ''Directory...'' @ [LF] else []) (line_tokens (line w s @ l)))
           in if response = [] then [] else [crlf, response]) @ [crlf_prompt]),
        line := (line w)(s := [])\<rparr>"
    if a: "running w" "list_all isprint l" "t = CR \<or> t = LF"
      "''EX'' \<in> set (map toupper (line_tokens (line w s @ l)))"
  proof -
    from a(2) have pl: "CR \<notin> set l" "LF \<notin> set l" "filter isprint l = l"
      using list_all_isprint_plain by blast+
    let ?w0 = "w\<lparr>rcvd := (rcvd w)(s := rcvd w s @ l @ [t])\<rparr>"
    let ?w1 = "?w0\<lparr>sent := (sent ?w0)(s := sent ?w0 s @ map (\<lambda>c. [c]) (filter isprint l)),
               line := (line ?w0)(s := line ?w0 s @ filter isprint l)\<rparr>"
    have b: "process_buffer s (l @ [t]) ?w0 = on_terminator s ?w1"
      using a(3) process_buffer_plain [OF pl(1,2), of s ?w0]
      by (simp add: process_buffer_append process_byte_def)
    from a(4) have "line w s @ l \<noteq> []"
      using line_tokens_Nil by fastforce
    then have ne: "line ?w1 s \<noteq> []"
      using pl(3) by simp
    have body: "connection_body s (Readable (Received (l @ [t]))) w = on_terminator s ?w1"
      using b by simp
    have nr: "\<not> running (on_terminator s ?w1)"
      using a(4) by (subst on_terminator_line [OF ne]) (simp add: pl(3) Let_def)
    have "connection_loop s (Readable (Received (l @ [t])) # evs) w = on_terminator s ?w1"
      using a(1) body nr by (cases evs) simp_all
    also have "\<dots> = w\<lparr>running := False,
        rcvd := (rcvd w)(s := rcvd w s @ l @ [t]),
        sent := (sent w)(s := sent w s @ map (\<lambda>c. [c]) l @
          (let response = concat (map (\<lambda>token. if toupper token = ''DIR''
                            then ''Directory...'' @ [LF] else []) (line_tokens (line w s @ l)))
           in if response = [] then [] else [crlf, response]) @ [crlf_prompt]),
        line := (line w)(s := [])\<rparr>"
      using a(4) by (subst on_terminator_line [OF ne]) (simp add: pl(3) Let_def fun_eq_iff)
    finally show ?thesis .
  qed
  from first second show ?thesis
    by blast
qed

theorem ex_line_processed_to_completion_witness:
  "running init \<and> list_all isprint ''ex dir''
   \<and> ''EX'' \<in> set (map toupper (line_tokens (line init 0 @ ''ex dir'')))
   \<and> line_tokens ''ex dir'' = [] @ ''ex'' # [''dir''] \<and> toupper ''ex'' = ''EX''
   \<and> connection_command ''ex dir'' \<lparr>running = True, os = []\<rparr>
       = fold run_token [''dir''] (ex (fold run_token [] \<lparr>running = True, os = []\<rparr>))
   \<and> sent (connection_loop 0 [Readable (Received (''ex dir'' @ [CR])),
                               Readable (Received (''dir'' @ [LF]))] init) 0
       = sent init 0 @ map (\<lambda>c. [c]) ''ex dir'' @ [crlf, ''Directory...'' @ [LF]] @ [crlf_prompt]
   \<and> \<not> running (connection_loop 0 [Readable (Received (''ex dir'' @ [CR])),
                               Readable (Received (''dir'' @ [LF]))] init)"
proof -
  have h1: "running init" by (simp add: init_def)
  have h2: "list_all isprint ''ex dir''" by code_simp
  have h3: "''EX'' \<in> set (map toupper (line_tokens (line init 0 @ ''ex dir'')))" by code_simp
  have h4: "line_tokens ''ex dir'' = [] @ ''ex'' # [''dir'']" by code_simp
  have h5: "toupper ''ex'' = ''EX''" by code_simp
  have r: "concat (map (\<lambda>token. if toupper token = ''DIR''
                            then ''Directory...'' @ [LF] else []) (line_tokens (line init 0 @ ''ex dir'')))
           = ''Directory...'' @ [LF]"
    by code_simp
  note th = ex_line_processed_to_completion [of init "''ex dir''" CR 0 "[Readable (Received (''dir'' @ [LF]))]"
      "''ex dir''" "[]" "''ex''" "[''dir'']" "\<lparr>running = True, os = []\<rparr>"]
  from th h1 h2 h3 have e: "connection_loop 0 [Readable (Received (''ex dir'' @ [CR])),
                               Readable (Received (''dir'' @ [LF]))] init =
      init\<lparr>running := False,
        rcvd := (rcvd init)(0 := rcvd init 0 @ ''ex dir'' @ [CR]),
        sent := (sent init)(0 := sent init 0 @ map (\<lambda>c. [c]) ''ex dir'' @
          (let response = concat (map (\<lambda>token. if toupper token = ''DIR''
                            then ''Directory...'' @ [LF] else []) (line_tokens (line init 0 @ ''ex dir'')))
           in if response = [] then [] else [crlf, response]) @ [crlf_prompt]),
        line := (line init)(0 := [])\<rparr>"
    by blast
  from th h4 h5 have c: "connection_command ''ex dir'' \<lparr>running = True, os = []\<rparr>
       = fold run_token [''dir''] (ex (fold run_token [] \<lparr>running = True, os = []\<rparr>))"
    by blast
  have s: "sent (connection_loop 0 [Readable (Received (''ex dir'' @ [CR])),
                               Readable (Received (''dir'' @ [LF]))] init) 0
       = sent init 0 @ map (\<lambda>c. [c]) ''ex dir'' @ [crlf, ''Directory...'' @ [LF]] @ [crlf_prompt]"
    unfolding e r by (simp add: Let_def)
  have n: "\<not> running (connection_loop 0 [Readable (Received (''ex dir'' @ [CR])),
                               Readable (Received (''dir'' @ [LF]))] init)"
    unfolding e by simp
  from h1 h2 h3 h4 h5 c s n show ?thesis
    by blast
qed

section \<open>The claims about the shared flag and the accept loop\<close>

text \<open>
  Claim C8. \<open>running\<close> starts true (the ShutdownFlag is not set), and no operation
  sets it again once it is false: not a schedule of steps of \<open>main\<close> and the
  workers, not a single step, not \<open>connection\<close> or any part of it, not dispatch.
  \<open>ex\<close> clears it, and clearing it twice is clearing it once.
\<close>

theorem running_never_set_again:
  "running init
   \<and> (\<not> running w \<longrightarrow> \<not> running (run sched w))
   \<and> (\<not> running w \<longrightarrow> \<not> running (sys_step a w))
   \<and> (\<not> running w \<longrightarrow> \<not> running (connection s evs w))
   \<and> (\<not> running w \<longrightarrow> \<not> running (connection_body s ev w))
   \<and> (\<not> running w \<longrightarrow> \<not> running (process_byte s c w))
   \<and> (\<not> running st \<longrightarrow> \<not> running (connection_command l st))
   \<and> \<not> running (ex st) \<and> ex (ex st) = ex st \<and> running (dir st) = running st"
proof -
  have "\<not> running st \<longrightarrow> \<not> running (connection_command l st)"
    by (simp add: connection_command_fold running_fold_run_token)
  moreover have "running init" by (simp add: init_def)
  moreover have "\<not> running (ex st) \<and> ex (ex st) = ex st \<and> running (dir st) = running st"
    by (simp add: ex_def dir_def)
  ultimately show ?thesis
    using running_run [of sched w] running_sys_step [of a w] running_connection [of s evs w]
      running_connection_body [of s ev w] running_process_byte [of s c w]
    by blast
qed

theorem running_never_set_again_witness:
  "\<not> running (init\<lparr>running := False\<rparr>)
   \<and> \<not> running (run [Main (Acceptable Accepted), Worker 0 (Readable (Received (''dir'' @ [CR])))]
         (init\<lparr>running := False\<rparr>))
   \<and> \<not> running (sys_step (Main (Acceptable Accepted)) (init\<lparr>running := False\<rparr>))
   \<and> \<not> running (connection 0 [SelectTimeout] (init\<lparr>running := False\<rparr>))
   \<and> \<not> running (connection_body 0 SelectTimeout (init\<lparr>running := False\<rparr>))
   \<and> \<not> running (process_byte 0 CR (init\<lparr>running := False\<rparr>))
   \<and> \<not> running \<lparr>running = False, os = []\<rparr>
   \<and> \<not> running (connection_command ''dir'' \<lparr>running = False, os = []\<rparr>)"
proof -
  have h: "\<not> running (init\<lparr>running := False\<rparr>)" "\<not> running \<lparr>running = False, os = []\<rparr>"
    by simp_all
  from running_never_set_again [of "init\<lparr>running := False\<rparr>"
      "[Main (Acceptable Accepted), Worker 0 (Readable (Received (''dir'' @ [CR])))]"
      "Main (Acceptable Accepted)" 0 "[SelectTimeout]" SelectTimeout CR
      "\<lparr>running = False, os = []\<rparr>" "''dir''"] h
  show ?thesis by blast
qed

text \<open>
  Claim C1. The claim says that a failure of \<open>select\<close> or \<open>recv\<close>, or a \<open>recv\<close> of
  zero bytes, stops that worker alone. In \<open>connection\<close> each of the three branches
  assigns \<open>running = false\<close>, the flag that every worker and \<open>main\<close> test: whatever
  the state, the pass ends with \<open>running\<close> false. In the run below two connections
  are open, the peer of connection 0 closes, and then connection 1 receives a
  command: its thread leaves the loop without reading it, and \<open>main\<close> leaves the
  accept loop instead of accepting the third connection.
\<close>

theorem io_failure_clears_running:
  "\<not> running (connection_body s (SelectError errno) w)
   \<and> \<not> running (connection_body s (Readable (RecvFailed errno)) w)
   \<and> \<not> running (connection_body s (Readable (Received [])) w)
   \<and> (let w = run [Main (Acceptable Accepted), Main (Acceptable Accepted),
                  Worker 0 (Readable (Received [])),
                  Worker 1 (Readable (Received (''dir'' @ [CR]))),
                  Main (Acceptable Accepted)] init
       in \<not> running w \<and> logged w = [Hello, ConnectionClosedByClient]
          \<and> sent w 1 = [prompt] \<and> rcvd w 1 = [] \<and> status w 1 = Finished
          \<and> main_pc w = Joining \<and> next_socket w = 2)"
proof -
  have "let w = run [Main (Acceptable Accepted), Main (Acceptable Accepted),
                  Worker 0 (Readable (Received [])),
                  Worker 1 (Readable (Received (''dir'' @ [CR]))),
                  Main (Acceptable Accepted)] init
       in \<not> running w \<and> logged w = [Hello, ConnectionClosedByClient]
          \<and> sent w 1 = [prompt] \<and> rcvd w 1 = [] \<and> status w 1 = Finished
          \<and> main_pc w = Joining \<and> next_socket w = 2"
    by code_simp
  then show ?thesis
    by (simp add: write_log_def)
qed

text \<open>
  Claim C2. The claim says that the reap loop removes the finished threads and
  returns without waiting for the others. The loop never moves its iterator: while
  the first thread of the vector is not ready it does not leave, however many
  passes it makes; when it leaves, the vector is empty, so it has waited for every
  thread; it does leave when all threads are ready. In the process, after one
  connection is accepted and one \<open>select\<close> on the listening socket times out,
  \<open>main\<close> stays in the reap loop while \<open>running\<close> holds and accepts nothing more.
\<close>

theorem reap_waits_for_first_thread:
  "reap fuel (\<lambda>n t. t \<noteq> i) n (i # rest) = None
   \<and> (reap fuel ready n ts = None \<or> reap fuel ready n ts = Some [])
   \<and> reap (Suc (length ts)) (\<lambda>n t. True) n ts = Some []
   \<and> run (replicate k (Main ev)) (run [Main (Acceptable Accepted), Main AcceptTimeout] init)
       = run [Main (Acceptable Accepted), Main AcceptTimeout] init
   \<and> main_pc (run [Main (Acceptable Accepted), Main AcceptTimeout] init) = Reaping
   \<and> threads (run [Main (Acceptable Accepted), Main AcceptTimeout] init) = [0]
   \<and> running (run [Main (Acceptable Accepted), Main AcceptTimeout] init)"
proof -
  let ?w = "run [Main (Acceptable Accepted), Main AcceptTimeout] init"
  have a: "main_pc ?w = Reaping" and b: "threads ?w = [0]" and c: "status ?w 0 = Active"
    and d: "running ?w"
    by code_simp+
  from stuck_reaping [OF a b c, of k ev] a b d reap_stuck [of fuel i n rest]
    reap_result [of fuel ready n ts] reap_all_ready [of ts n]
  show ?thesis by blast
qed

text \<open>
  Claim C9. The claim says that the accept loop accepts again only when the lambda
  has claimed the descriptor, and that each descriptor passes to one lambda, which
  closes it once. The loop of line 395 leaves on any \<open>no_timeout\<close>, and a
  \<open>wait_for\<close> may return that without a notification: then \<open>main\<close> accepts 5 while
  the lambda for 4 has not copied \<open>client_socket\<close>; both lambdas copy 5; in a longer
  run both serve and close 5, and 4 is never served. Along a genuine schedule the
  handoff is as claimed: \<open>main\<close> is past its wait only when every lambda has
  claimed, each lambda holds the descriptor accepted for it, and no \<open>unlock\<close>
  throws. A lambda closes its socket in one statement only. \<open>main\<close> never touches
  the transcript, the line or the status of a connection already accepted, and a
  connection whose thread has returned stays so, with nothing more sent on it.
\<close>

theorem spurious_wakeup_breaks_handoff:
  "(let h = hrun [MainAccept 4, MainCallsWaitFor, MainWaitForReturns no_timeout, MainAccept 5] hinit
    in accepted h = [4, 5] \<and> thread_pos h 0 = AtCopy \<and> \<not> claimed (thread_pos h 0))
   \<and> spurious (MainWaitForReturns no_timeout) (hrun [MainAccept 4, MainCallsWaitFor] hinit)
   \<and> (let h = hrun [MainAccept 4, MainCallsWaitFor, MainWaitForReturns no_timeout, MainAccept 5,
                    Lambda 0, Lambda 1] hinit
       in my_socket h 0 = 5 \<and> my_socket h 1 = 5 \<and> accepted h ! 0 = 4)
   \<and> (let h = hrun [MainAccept 4, MainCallsWaitFor, MainWaitForReturns no_timeout, MainAccept 5,
                    Lambda 0, Lambda 1, Lambda 0, MainCallsWaitFor, Lambda 0,
                    MainWaitForReturns no_timeout, MainAccept 6, Lambda 1, Lambda 1,
                    Lambda 0, Lambda 0, Lambda 1, Lambda 1] hinit
       in accepted h = [4, 5, 6] \<and> served h = [5, 5] \<and> closed h = [5, 5])
   \<and> (genuine sched hinit \<longrightarrow>
        (main_pos (hrun sched hinit) = AtAccept \<and> t < launched (hrun sched hinit) \<longrightarrow>
           claimed (thread_pos (hrun sched hinit) t))
        \<and> (t < launched (hrun sched hinit) \<and> claimed (thread_pos (hrun sched hinit) t) \<longrightarrow>
             my_socket (hrun sched hinit) t = accepted (hrun sched hinit) ! t)
        \<and> thread_pos (hrun sched hinit) t \<noteq> Threw)
   \<and> closed (lambda_step t h) = closed h @ (if thread_pos h t = AtClose then [my_socket h t] else [])
   \<and> (s < next_socket w \<longrightarrow>
        sent (main_step ev w) s = sent w s \<and> rcvd (main_step ev w) s = rcvd w s
        \<and> line (main_step ev w) s = line w s \<and> status (main_step ev w) s = status w s)
   \<and> (s < next_socket w \<and> status w s = Finished \<longrightarrow>
        status (run sched' w) s = Finished \<and> sent (run sched' w) s = sent w s)"
proof -
  have a: "let h = hrun [MainAccept 4, MainCallsWaitFor, MainWaitForReturns no_timeout, MainAccept 5] hinit
    in accepted h = [4, 5] \<and> thread_pos h 0 = AtCopy \<and> \<not> claimed (thread_pos h 0)"
    by code_simp
  have b: "spurious (MainWaitForReturns no_timeout) (hrun [MainAccept 4, MainCallsWaitFor] hinit)"
    by code_simp
  have c: "let h = hrun [MainAccept 4, MainCallsWaitFor, MainWaitForReturns no_timeout, MainAccept 5,
                    Lambda 0, Lambda 1] hinit
       in my_socket h 0 = 5 \<and> my_socket h 1 = 5 \<and> accepted h ! 0 = 4"
    by code_simp
  have d: "let h = hrun [MainAccept 4, MainCallsWaitFor, MainWaitForReturns no_timeout, MainAccept 5,
                    Lambda 0, Lambda 1, Lambda 0, MainCallsWaitFor, Lambda 0,
                    MainWaitForReturns no_timeout, MainAccept 6, Lambda 1, Lambda 1,
                    Lambda 0, Lambda 0, Lambda 1, Lambda 1] hinit
       in accepted h = [4, 5, 6] \<and> served h = [5, 5] \<and> closed h = [5, 5]"
    by code_simp
  have e: "(main_pos (hrun sched hinit) = AtAccept \<and> t < launched (hrun sched hinit) \<longrightarrow>
           claimed (thread_pos (hrun sched hinit) t))
        \<and> (t < launched (hrun sched hinit) \<and> claimed (thread_pos (hrun sched hinit) t) \<longrightarrow>
             my_socket (hrun sched hinit) t = accepted (hrun sched hinit) ! t)
        \<and> thread_pos (hrun sched hinit) t \<noteq> Threw" if "genuine sched hinit"
  proof -
    from that have i: "handed (hrun sched hinit)"
      by (rule handed_run [OF handed_init])
    have "launched (hrun sched hinit) \<le> t \<or> t < launched (hrun sched hinit)" by arith
    with i show ?thesis
      unfolding handed_def claimed_def past_notify_def by (metis lambda_at.distinct)
  qed
  note f = closed_lambda_step [of t h]
  have g: "s < next_socket w \<longrightarrow>
        sent (main_step ev w) s = sent w s \<and> rcvd (main_step ev w) s = rcvd w s
        \<and> line (main_step ev w) s = line w s \<and> status (main_step ev w) s = status w s"
    using main_step_frame [of s w ev] by blast
  have k: "s < next_socket w \<and> status w s = Finished \<longrightarrow>
        status (run sched' w) s = Finished \<and> sent (run sched' w) s = sent w s"
    using finished_stays [of s w sched'] by blast
  from a b c d e f g k show ?thesis
    by blast
qed

theorem spurious_wakeup_breaks_handoff_witness:
  "genuine [MainAccept 4, MainCallsWaitFor, Lambda 0, Lambda 0, Lambda 0,
            MainWaitForReturns no_timeout] hinit
   \<and> main_pos (hrun [MainAccept 4, MainCallsWaitFor, Lambda 0, Lambda 0, Lambda 0,
            MainWaitForReturns no_timeout] hinit) = AtAccept
   \<and> 0 < launched (hrun [MainAccept 4, MainCallsWaitFor, Lambda 0, Lambda 0, Lambda 0,
            MainWaitForReturns no_timeout] hinit)
   \<and> claimed (thread_pos (hrun [MainAccept 4, MainCallsWaitFor, Lambda 0, Lambda 0, Lambda 0,
            MainWaitForReturns no_timeout] hinit) 0)
   \<and> my_socket (hrun [MainAccept 4, MainCallsWaitFor, Lambda 0, Lambda 0, Lambda 0,
            MainWaitForReturns no_timeout] hinit) 0 = 4
   \<and> 0 < next_socket (run [Main (Acceptable Accepted), Worker 0 (Readable (Received [])),
            Worker 0 SelectTimeout] init)
   \<and> status (run [Main (Acceptable Accepted), Worker 0 (Readable (Received [])),
            Worker 0 SelectTimeout] init) 0 = Finished
   \<and> sent (main_step (Acceptable Accepted) (run [Main (Acceptable Accepted),
            Worker 0 (Readable (Received [])), Worker 0 SelectTimeout] init)) 0 = [prompt]
   \<and> status (run [Worker 0 (Readable (Received ''dir'')), Main AcceptTimeout]
         (run [Main (Acceptable Accepted), Worker 0 (Readable (Received [])),
            Worker 0 SelectTimeout] init)) 0 = Finished
   \<and> sent (run [Worker 0 (Readable (Received ''dir'')), Main AcceptTimeout]
         (run [Main (Acceptable Accepted), Worker 0 (Readable (Received [])),
            Worker 0 SelectTimeout] init)) 0 = [prompt]"
proof -
  let ?g = "[MainAccept 4, MainCallsWaitFor, Lambda 0, Lambda 0, Lambda 0,
            MainWaitForReturns no_timeout]"
  let ?w = "run [Main (Acceptable Accepted), Worker 0 (Readable (Received [])),
            Worker 0 SelectTimeout] init"
  let ?s = "[Worker 0 (Readable (Received ''dir'')), Main AcceptTimeout]"
  have g: "genuine ?g hinit" by code_simp
  have m: "main_pos (hrun ?g hinit) = AtAccept" by code_simp
  have l: "0 < launched (hrun ?g hinit)" by code_simp
  have a: "accepted (hrun ?g hinit) ! 0 = 4" by code_simp
  have n: "0 < next_socket ?w" by code_simp
  have f: "status ?w 0 = Finished" by code_simp
  have p: "sent ?w 0 = [prompt]" by code_simp
  note th = spurious_wakeup_breaks_handoff [where sched = ?g and t = 0 and s = 0 and w = ?w
      and ev = "Acceptable Accepted" and sched' = ?s]
  from th g m l have c: "claimed (thread_pos (hrun ?g hinit) 0)"
    by blast
  with th g l a have y: "my_socket (hrun ?g hinit) 0 = 4"
    by simp
  from th n p have u: "sent (main_step (Acceptable Accepted) ?w) 0 = [prompt]"
    by simp
  from th n f p have k: "status (run ?s ?w) 0 = Finished \<and> sent (run ?s ?w) 0 = [prompt]"
    by simp
  from g m l c y n f u k show ?thesis
    by blast
qed

end
